theory Spec2Isabelle
  imports Complex_Main
begin

section \<open>The gossip example: state records, conflict resolution and the broadcast queue\<close>

text \<open>
  The program (\<^verbatim>\<open>main.go\<close>) runs a cluster of servers that each hold one timestamped
  colour and spread it with hashicorp/memberlist. This theory embeds the parts of the file
  that decide how a server reacts to a state record: \<^verbatim>\<open>processStateChange\<close>,
  \<^verbatim>\<open>StateChange.Invalidates\<close>, \<^verbatim>\<open>StateChange.Message\<close>, the delegate methods
  \<^verbatim>\<open>NotifyMsg\<close>, \<^verbatim>\<open>MergeRemoteState\<close>, \<^verbatim>\<open>LocalState\<close> and
  \<^verbatim>\<open>GetBroadcasts\<close>, and the reporting loop of \<^verbatim>\<open>main\<close>.

  Scope of the model. A server is modelled after \<^verbatim>\<open>start\<close> has allocated its queue.
  Goroutines, the blocking of the unbuffered channel and the data races between them are
  not modelled: every method is one atomic step on the server. The logger of a server
  writes to \<^verbatim>\<open>io.Discard\<close>, so \<^verbatim>\<open>Printf\<close> has no effect and is left out, while
  \<^verbatim>\<open>Fatal\<close> still ends the process and is kept as an outcome.
\<close>

subsection \<open>Time and state records\<close>

text \<open>
  A \<^verbatim>\<open>time.Time\<close> is modelled by the instant it denotes: the number of nanoseconds
  since the zero \<^verbatim>\<open>Time\<close> (January 1 of year 1, UTC), so the zero value of the type is
  \<open>0\<close> and instants before it are negative. \<^verbatim>\<open>Before\<close> and \<^verbatim>\<open>After\<close> compare
  instants. The location and the monotonic clock reading of a Go \<^verbatim>\<open>Time\<close> are not
  part of the model.
\<close>

type_synonym Time = int

definition Before :: "Time \<Rightarrow> Time \<Rightarrow> bool" where
  "Before t u = (t < u)"

definition After :: "Time \<Rightarrow> Time \<Rightarrow> bool" where
  "After t u = (t > u)"

text \<open>\<^verbatim>\<open>type state struct { TS time.Time; Value string }\<close>; a Go string is a byte
  sequence, as is \<^typ>\<open>string\<close>.\<close>

record state =
  TS :: Time
  Value :: string

definition zero_state :: state where
  "zero_state = \<lparr>TS = 0, Value = ''''\<rparr>"

definition colors :: "string list" where
  "colors = [''red'', ''orange'', ''yellow'', ''green'', ''blue'', ''indigo'', ''violet'']"

text \<open>\<^verbatim>\<open>nextState\<close> reads the clock and draws \<^verbatim>\<open>rand.Intn(len(colors))\<close>; both are
  inputs of the model (\<open>i < length colors\<close> for every draw of \<^verbatim>\<open>Intn\<close>).\<close>

definition nextState :: "Time \<Rightarrow> nat \<Rightarrow> state" where
  "nextState now i = \<lparr>TS = now, Value = colors ! i\<rparr>"

subsection \<open>Broadcasts\<close>

text \<open>
  \<^verbatim>\<open>type StateChange struct { state }\<close> implements \<^verbatim>\<open>memberlist.Broadcast\<close>. The
  interface is a datatype with one constructor for the type of this program and one for a
  value of any other concrete type, which is what the type assertion of
  \<^verbatim>\<open>Invalidates\<close> tells apart; such a value is known by its message only.
\<close>

datatype StateChange = StateChange (embedded: state)

datatype Broadcast = is_StateChange: IsStateChange StateChange | Foreign string

text \<open>
  \<^verbatim>\<open>func (s StateChange) Invalidates(b memberlist.Broadcast) bool {
      o, ok := b.(StateChange); if !ok { return false }; return s.TS.After(o.TS) }\<close>
\<close>

fun Invalidates :: "StateChange \<Rightarrow> Broadcast \<Rightarrow> bool" where
  "Invalidates s (IsStateChange o') = After (TS (embedded s)) (TS (embedded o'))"
| "Invalidates s (Foreign m) = False"

subsection \<open>The wire format\<close>

text \<open>
  Modelled from the spec: \<^verbatim>\<open>json.Marshal\<close> and \<^verbatim>\<open>json.Unmarshal\<close> of Go's
  \<^verbatim>\<open>encoding/json\<close> are not part of the repository. The spec asks for "a serialized
  record containing exactly {timestamp, value}" whose malformed payloads are rejected.
  The model writes the JSON object \<^verbatim>\<open>{"TS":<instant>,"Value":"<value>"}\<close> with the
  instant as a decimal number of nanoseconds (Go writes the RFC 3339 text of the same
  instant) and with quotes and backslashes of the value escaped by a backslash. The
  decoder accepts this form only; everything else is a syntax error. Encoding is total in
  the model: \<^verbatim>\<open>json.Marshal\<close> fails on a \<^verbatim>\<open>state\<close> only for a year outside
  0 to 9999, which neither the clock nor the decoder produces, and the program ignores
  that error.
\<close>

definition dq :: char where
  "dq = CHR 0x22"

definition bs :: char where
  "bs = CHR 0x5C"

definition quote :: "string \<Rightarrow> string" where
  "quote s = dq # s @ [dq]"

text \<open>A decimal digit is the byte \<open>48 + d\<close>, the code of \<open>0\<close> being 48.\<close>

definition digit_char :: "nat \<Rightarrow> char" where
  "digit_char d = char_of (48 + d)"

definition digit_val :: "char \<Rightarrow> nat option" where
  "digit_val c =
     (let n = (of_char c :: nat) in if 48 \<le> n \<and> n \<le> 57 then Some (n - 48) else None)"

definition is_digit :: "char \<Rightarrow> bool" where
  "is_digit c = (digit_val c \<noteq> None)"

function show_nat :: "nat \<Rightarrow> string" where
  "show_nat n = (if n < 10 then [digit_char n] else show_nat (n div 10) @ [digit_char (n mod 10)])"
  by pat_completeness auto
termination
  by (relation "measure (\<lambda>n. n)") auto

declare show_nat.simps [simp del]

definition show_int :: "int \<Rightarrow> string" where
  "show_int i = (if i < 0 then CHR ''-'' # show_nat (nat (- i)) else show_nat (nat i))"

definition parse_nat :: "string \<Rightarrow> nat" where
  "parse_nat ds = foldl (\<lambda>a c. 10 * a + (case digit_val c of Some d \<Rightarrow> d | None \<Rightarrow> 0)) 0 ds"

definition read_nat :: "string \<Rightarrow> (nat \<times> string) option" where
  "read_nat s =
     (let ds = takeWhile is_digit s
      in if ds = [] then None else Some (parse_nat ds, dropWhile is_digit s))"

definition read_int :: "string \<Rightarrow> (int \<times> string) option" where
  "read_int s =
     (case s of
        [] \<Rightarrow> None
      | c # r \<Rightarrow>
          if c = CHR ''-''
          then (case read_nat r of None \<Rightarrow> None | Some (n, rest) \<Rightarrow> Some (- int n, rest))
          else (case read_nat s of None \<Rightarrow> None | Some (n, rest) \<Rightarrow> Some (int n, rest)))"

definition strip_prefix :: "string \<Rightarrow> string \<Rightarrow> string option" where
  "strip_prefix p s = (if take (length p) s = p then Some (drop (length p) s) else None)"

fun escape :: "string \<Rightarrow> string" where
  "escape [] = []"
| "escape (c # v) = (if c = dq \<or> c = bs then bs # c # escape v else c # escape v)"

text \<open>\<open>unescape\<close> reads a string body up to its closing quote and returns the body and
  the rest of the input.\<close>

fun unescape :: "string \<Rightarrow> (string \<times> string) option" where
  "unescape [] = None"
| "unescape [c] = (if c = dq then Some ([], []) else None)"
| "unescape (c # e # r) =
     (if c = dq then Some ([], e # r)
      else if c = bs then
        (if e = dq \<or> e = bs
         then (case unescape r of None \<Rightarrow> None | Some (v, rest) \<Rightarrow> Some (e # v, rest))
         else None)
      else (case unescape (e # r) of None \<Rightarrow> None | Some (v, rest) \<Rightarrow> Some (c # v, rest)))"

datatype error = SyntaxError

definition json_Marshal :: "state \<Rightarrow> string" where
  "json_Marshal r =
     ''{'' @ quote ''TS'' @ '':'' @ show_int (TS r) @ '','' @ quote ''Value'' @ '':'' @
     dq # escape (Value r) @ dq # ''}''"

definition json_Unmarshal :: "string \<Rightarrow> error + state" where
  "json_Unmarshal buf =
     (case strip_prefix (''{'' @ quote ''TS'' @ '':'') buf of
        None \<Rightarrow> Inl SyntaxError
      | Some r1 \<Rightarrow>
          (case read_int r1 of
             None \<Rightarrow> Inl SyntaxError
           | Some (t, r2) \<Rightarrow>
               (case strip_prefix ('','' @ quote ''Value'' @ '':'' @ [dq]) r2 of
                  None \<Rightarrow> Inl SyntaxError
                | Some r3 \<Rightarrow>
                    (case unescape r3 of
                       None \<Rightarrow> Inl SyntaxError
                     | Some (v, r4) \<Rightarrow>
                         if r4 = ''}'' then Inr \<lparr>TS = t, Value = v\<rparr> else Inl SyntaxError))))"

text \<open>\<^verbatim>\<open>func (s StateChange) Message() []byte { buf, _ := json.Marshal(s.state); return buf }\<close>;
  a broadcast of another type carries its message.\<close>

definition Message :: "StateChange \<Rightarrow> string" where
  "Message s = json_Marshal (embedded s)"

fun Broadcast_Message :: "Broadcast \<Rightarrow> string" where
  "Broadcast_Message (IsStateChange s) = Message s"
| "Broadcast_Message (Foreign m) = m"

subsection \<open>The broadcast queue\<close>

text \<open>
  Modelled from the spec: \<^verbatim>\<open>memberlist.TransmitLimitedQueue\<close> is a type of the
  hashicorp/memberlist library and is not part of the repository. Following section 4.2 of
  the spec, the queue is a list of entries in the order they were queued, each with the
  number of times it has been handed out. \<open>QueueBroadcast\<close> (the spec's enqueue) first
  removes every queued entry that the new one invalidates and then appends the new one.
  \<open>GetBroadcasts\<close> (the spec's drain) goes through the queue first in, first out, takes
  every entry whose message and per-item overhead still fit under the limit, skips the
  others for this round, counts the transmission and evicts an entry once it has been
  handed out \<open>transmitLimit\<close> times, the retransmission budget that the group
  communication service supplies.
\<close>

type_synonym queue = "(Broadcast \<times> nat) list"

definition QueueBroadcast :: "queue \<Rightarrow> StateChange \<Rightarrow> queue" where
  "QueueBroadcast q b = filter (\<lambda>(e, n). \<not> Invalidates b e) q @ [(IsStateChange b, 0)]"

fun drain :: "nat \<Rightarrow> int \<Rightarrow> int \<Rightarrow> queue \<Rightarrow> Broadcast list \<times> queue" where
  "drain transmitLimit overhead free [] = ([], [])"
| "drain transmitLimit overhead free ((e, n) # q) =
     (if overhead + int (length (Broadcast_Message e)) \<le> free
      then (let (out, q') =
                  drain transmitLimit overhead
                    (free - (overhead + int (length (Broadcast_Message e)))) q
            in (e # out, if transmitLimit \<le> Suc n then q' else (e, Suc n) # q'))
      else (let (out, q') = drain transmitLimit overhead free q
            in (out, (e, n) # q')))"

definition queue_GetBroadcasts :: "nat \<Rightarrow> int \<Rightarrow> int \<Rightarrow> queue \<Rightarrow> string list \<times> queue" where
  "queue_GetBroadcasts transmitLimit overhead limit q =
     (let (out, q') = drain transmitLimit overhead limit q
      in (map Broadcast_Message out, q'))"

text \<open>Successive rounds of draining one queue, each with its own budget and limits:
  the entries handed out in each round, and the payloads \<open>GetBroadcasts\<close> returns.\<close>

fun drain_rounds :: "queue \<Rightarrow> (nat \<times> int \<times> int) list \<Rightarrow> Broadcast list list" where
  "drain_rounds q [] = []"
| "drain_rounds q ((transmitLimit, overhead, limit) # rounds) =
     (let (out, q') = drain transmitLimit overhead limit q
      in out # drain_rounds q' rounds)"

fun GetBroadcasts_rounds :: "queue \<Rightarrow> (nat \<times> int \<times> int) list \<Rightarrow> string list list" where
  "GetBroadcasts_rounds q [] = []"
| "GetBroadcasts_rounds q ((transmitLimit, overhead, limit) # rounds) =
     (let (msgs, q') = queue_GetBroadcasts transmitLimit overhead limit q
      in msgs # GetBroadcasts_rounds q' rounds)"

subsection \<open>The server\<close>

text \<open>
  Of \<^verbatim>\<open>type server struct\<close> the model keeps the state record, the queue and the
  channel \<^verbatim>\<open>updates\<close>, which is represented by the number of values the server has
  sent on it. The logger, the member list, the name and the port do not influence the
  methods below.
\<close>

record server =
  state :: state
  queue :: queue
  updates :: nat

text \<open>
  \<^verbatim>\<open>func (s *server) processStateChange(newState state) {
      if newState.TS.Before(s.state.TS) { return }
      s.state = newState
      s.updates <- struct{}{}
      s.queue.QueueBroadcast(StateChange{s.state}) }\<close>
\<close>

definition processStateChange :: "server \<Rightarrow> state \<Rightarrow> server" where
  "processStateChange s newState =
     (if Before (TS newState) (TS (state s)) then s
      else (let s1 = s\<lparr>state := newState\<rparr>;
                s2 = s1\<lparr>updates := Suc (updates s1)\<rparr>
            in s2\<lparr>queue := QueueBroadcast (queue s2) (StateChange (state s2))\<rparr>))"

definition mutate :: "server \<Rightarrow> Time \<Rightarrow> nat \<Rightarrow> server" where
  "mutate s now i = processStateChange s (nextState now i)"

text \<open>A delegate method either returns, with the server as it left it, or ends the
  process through \<^verbatim>\<open>s.logger.Fatal\<close> (\<^verbatim>\<open>os.Exit(1)\<close>), with the server as it was then.\<close>

datatype outcome = Returns server | Fatal error server

text \<open>
  \<^verbatim>\<open>func (s *server) NotifyMsg(buf []byte) {
      var remoteState state
      err := json.Unmarshal(buf, &remoteState)
      if err != nil { s.logger.Fatal(err) }
      s.processStateChange(remoteState) }\<close>
\<close>

definition NotifyMsg :: "server \<Rightarrow> string \<Rightarrow> outcome" where
  "NotifyMsg s buf =
     (case json_Unmarshal buf of
        Inl err \<Rightarrow> Fatal err s
      | Inr remoteState \<Rightarrow> Returns (processStateChange s remoteState))"

definition MergeRemoteState :: "server \<Rightarrow> string \<Rightarrow> bool \<Rightarrow> outcome" where
  "MergeRemoteState s buf join =
     (case json_Unmarshal buf of
        Inl err \<Rightarrow> Fatal err s
      | Inr remoteState \<Rightarrow> Returns (processStateChange s remoteState))"

text \<open>\<^verbatim>\<open>func (s *server) LocalState(join bool) []byte { buf, _ := json.Marshal(s.state); return buf }\<close>\<close>

definition LocalState :: "server \<Rightarrow> bool \<Rightarrow> string" where
  "LocalState s join = json_Marshal (state s)"

text \<open>\<^verbatim>\<open>func (s *server) GetBroadcasts(overhead, limit int) [][]byte {
      return s.queue.GetBroadcasts(overhead, limit) }\<close>\<close>

definition GetBroadcasts :: "nat \<Rightarrow> server \<Rightarrow> int \<Rightarrow> int \<Rightarrow> string list \<times> server" where
  "GetBroadcasts transmitLimit s overhead limit =
     (let (msgs, q') = queue_GetBroadcasts transmitLimit overhead limit (queue s)
      in (msgs, s\<lparr>queue := q'\<rparr>))"

text \<open>Delivering a sequence of records to one server, one call of
  \<^verbatim>\<open>processStateChange\<close> after the other.\<close>

definition deliver :: "server \<Rightarrow> state list \<Rightarrow> server" where
  "deliver s rs = foldl processStateChange s rs"

text \<open>A run of one server: records arrive (from peers or from \<^verbatim>\<open>mutate\<close>) and the
  transport drains the queue, in any interleaving. The result lists what each drain handed
  out.\<close>

datatype event = Deliver state | Drain nat int int

fun run :: "server \<Rightarrow> event list \<Rightarrow> Broadcast list list" where
  "run s [] = []"
| "run s (Deliver r # evs) = run (processStateChange s r) evs"
| "run s (Drain transmitLimit overhead limit # evs) =
     (let (out, q') = drain transmitLimit overhead limit (queue s)
      in out # run (s\<lparr>queue := q'\<rparr>) evs)"

subsection \<open>The reporting loop\<close>

text \<open>
  The score is computed in \<^verbatim>\<open>float32\<close>. A value of the type is a rational (every finite
  float is one), positive infinity or not-a-number; the operands of the program are never
  negative. \<open>round32\<close> rounds a rational to the nearest number with a significand of 24
  bits, ties to the even significand, as IEEE 754 arithmetic does for results in the
  normal range of the type (from \<open>2 ^ -126\<close> up to the largest finite float, which the
  quotients and products of server counts never leave).
\<close>

datatype float32 = Finite rat | PInf | NaN

fun bits :: "nat \<Rightarrow> nat" where
  "bits n = (if n = 0 then 0 else Suc (bits (n div 2)))"

declare bits.simps [simp del]

definition pow2 :: "int \<Rightarrow> rat" where
  "pow2 e = (if 0 \<le> e then 2 ^ nat e else 1 / 2 ^ nat (- e))"

text \<open>The exponent of a positive rational: the \<open>e\<close> with \<open>2 ^ e \<le> q < 2 ^ (e + 1)\<close>.\<close>

definition exponent :: "rat \<Rightarrow> int" where
  "exponent q =
     (if 1 \<le> q then int (bits (nat \<lfloor>q\<rfloor>)) - 1 else - int (bits (nat (\<lceil>1 / q\<rceil> - 1))))"

definition round_half_even :: "rat \<Rightarrow> int" where
  "round_half_even q =
     (let f = \<lfloor>q\<rfloor>; d = q - of_int f
      in if d < 1 / 2 then f else if 1 / 2 < d then f + 1 else if even f then f else f + 1)"

definition round32 :: "rat \<Rightarrow> rat" where
  "round32 q =
     (if q \<le> 0 then 0
      else (let u = pow2 (exponent q - 23) in of_int (round_half_even (q / u)) * u))"

definition float32_of_int :: "int \<Rightarrow> float32" where
  "float32_of_int n = Finite (round32 (of_int n))"

fun f32_div :: "float32 \<Rightarrow> float32 \<Rightarrow> float32" where
  "f32_div (Finite a) (Finite b) =
     (if b = 0 then (if a = 0 then NaN else PInf) else Finite (round32 (a / b)))"
| "f32_div (Finite a) PInf = Finite 0"
| "f32_div PInf (Finite b) = PInf"
| "f32_div x y = NaN"

fun f32_mul :: "float32 \<Rightarrow> float32 \<Rightarrow> float32" where
  "f32_mul (Finite a) (Finite b) = Finite (round32 (a * b))"
| "f32_mul (Finite a) PInf = (if a = 0 then NaN else PInf)"
| "f32_mul PInf (Finite b) = (if b = 0 then NaN else PInf)"
| "f32_mul PInf PInf = PInf"
| "f32_mul x y = NaN"

text \<open>The verb \<^verbatim>\<open>%.0f\<close>: the decimal text of the value rounded to no digits after the
  point, ties to even.\<close>

fun fmt_0f :: "float32 \<Rightarrow> string" where
  "fmt_0f (Finite q) = show_int (round_half_even q)"
| "fmt_0f PInf = ''+Inf''"
| "fmt_0f NaN = ''NaN''"

text \<open>
  One round of the loop \<^verbatim>\<open>for range updates\<close> of \<^verbatim>\<open>main\<close>:
  \<^verbatim>\<open>counts := make(map[string]int)
  var newest state
  for _, s := range servers {
      if s.state.TS.After(newest.TS) { newest = s.state }
      counts[s.state.Value]++ }
  score := 100 * (float32(counts[newest.Value]) / float32(len(servers)))
  logger.Printf("score: %.0f%%; expect: %s; colors: %v", score, newest.Value, counts)\<close>
  A missing key of the map reads as \<open>0\<close>. The report holds the three arguments of
  \<^verbatim>\<open>Printf\<close>.
\<close>

definition count_of :: "(string \<rightharpoonup> int) \<Rightarrow> string \<Rightarrow> int" where
  "count_of counts k = (case counts k of None \<Rightarrow> 0 | Some c \<Rightarrow> c)"

definition tally :: "state \<times> (string \<rightharpoonup> int) \<Rightarrow> server \<Rightarrow> state \<times> (string \<rightharpoonup> int)" where
  "tally acc s =
     (let newest = (if After (TS (state s)) (TS (fst acc)) then state s else fst acc);
          counts = (snd acc)(Value (state s) \<mapsto> count_of (snd acc) (Value (state s)) + 1)
      in (newest, counts))"

record report =
  score :: float32
  expect :: string
  histogram :: "string \<rightharpoonup> int"

definition monitor :: "server list \<Rightarrow> report" where
  "monitor servers =
     (let (newest, counts) = foldl tally (zero_state, Map.empty) servers
      in \<lparr>score = f32_mul (Finite 100)
                    (f32_div (float32_of_int (count_of counts (Value newest)))
                             (float32_of_int (int (length servers)))),
          expect = Value newest,
          histogram = counts\<rparr>)"

subsection \<open>Example inputs\<close>

text \<open>The servers and records of the examples of the specification: a server holding
  \<open>(t=10, "green")\<close>, a stale record, a record with the held timestamp, a server whose
  own state is still queued, two broadcasts of which the second is newer, and the three
  nodes of the score example.\<close>

definition held_green :: server where
  "held_green = \<lparr>state = \<lparr>TS = 10, Value = ''green''\<rparr>, queue = [], updates = 0\<rparr>"

definition stale_blue :: state where
  "stale_blue = \<lparr>TS = 5, Value = ''blue''\<rparr>"

definition tie_red :: state where
  "tie_red = \<lparr>TS = 10, Value = ''red''\<rparr>"

definition newer_red :: state where
  "newer_red = \<lparr>TS = 12, Value = ''red''\<rparr>"

definition queued_green :: server where
  "queued_green =
     \<lparr>state = \<lparr>TS = 10, Value = ''green''\<rparr>,
      queue = [(IsStateChange (StateChange \<lparr>TS = 10, Value = ''green''\<rparr>), 1)],
      updates = 1\<rparr>"

definition old_entry :: Broadcast where
  "old_entry = IsStateChange (StateChange \<lparr>TS = 5, Value = ''blue''\<rparr>)"

definition new_change :: StateChange where
  "new_change = StateChange \<lparr>TS = 10, Value = ''green''\<rparr>"

definition node :: "Time \<Rightarrow> string \<Rightarrow> server" where
  "node t v = \<lparr>state = \<lparr>TS = t, Value = v\<rparr>, queue = [], updates = 0\<rparr>"

definition example_nodes :: "server list" where
  "example_nodes = [node 5 ''red'', node 5 ''red'', node 3 ''blue'']"

section \<open>Conflict resolution\<close>

lemma processStateChange_reject:
  "Before (TS r) (TS (state s)) \<Longrightarrow> processStateChange s r = s"
  by (simp add: processStateChange_def)

lemma processStateChange_accept:
  "\<not> Before (TS r) (TS (state s)) \<Longrightarrow>
     processStateChange s r =
       s\<lparr>state := r, updates := Suc (updates s),
         queue := QueueBroadcast (queue s) (StateChange r)\<rparr>"
  by (simp add: processStateChange_def Let_def)

lemma processStateChange_notifies:
  "\<not> Before (TS r) (TS (state s)) \<Longrightarrow> updates (processStateChange s r) = Suc (updates s)"
  by (simp add: processStateChange_accept)

text \<open>An accepted record always leaves a trace: the server is not the one it was, since a
  notification has been sent.\<close>

lemma processStateChange_accept_visible:
  "\<not> Before (TS r) (TS (state s)) \<Longrightarrow> processStateChange s r \<noteq> s"
proof
  assume a: "\<not> Before (TS r) (TS (state s))" and e: "processStateChange s r = s"
  from a have "updates (processStateChange s r) = Suc (updates s)"
    by (rule processStateChange_notifies)
  with e show False by simp
qed

text \<open>
  Claim C1. \<^verbatim>\<open>processStateChange\<close> rejects the incoming record, returning with the
  server exactly as it was, if and only if the incoming timestamp is strictly before the
  held one; a record with an equal or newer timestamp is accepted and becomes the held
  record.
\<close>

theorem processStateChange_rejects_iff_before:
  "(processStateChange s r = s) = (TS r < TS (state s)) \<and>
   (processStateChange s r = s) = Before (TS r) (TS (state s)) \<and>
   (if TS (state s) \<le> TS r then state (processStateChange s r) = r
    else state (processStateChange s r) = state s)"
proof -
  have b: "Before (TS r) (TS (state s)) = (TS r < TS (state s))"
    by (simp add: Before_def)
  have 1: "(processStateChange s r = s) = Before (TS r) (TS (state s))"
    using processStateChange_accept_visible [of r s] processStateChange_reject [of r s]
    by blast
  have 2: "TS (state s) \<le> TS r \<Longrightarrow> state (processStateChange s r) = r"
    by (simp add: processStateChange_accept b)
  have 3: "\<not> TS (state s) \<le> TS r \<Longrightarrow> state (processStateChange s r) = state s"
    by (simp add: processStateChange_reject b)
  from 1 2 3 b show ?thesis by simp
qed

theorem processStateChange_rejects_iff_before_witness:
  "processStateChange held_green stale_blue = held_green \<and>
   processStateChange held_green tie_red \<noteq> held_green \<and>
   state (processStateChange held_green tie_red) = tie_red \<and>
   state (processStateChange held_green newer_red) = newer_red"
  using processStateChange_rejects_iff_before [of held_green stale_blue]
    processStateChange_rejects_iff_before [of held_green tie_red]
    processStateChange_rejects_iff_before [of held_green newer_red]
  by (simp add: held_green_def stale_blue_def tie_red_def newer_red_def)

text \<open>
  Claim C5. When the incoming timestamp is strictly before the held one,
  \<^verbatim>\<open>processStateChange\<close> has no effect: the state record, the queue and the number of
  notifications sent are what they were. The example is the server holding
  \<open>(t=10, "green")\<close> that receives \<open>(t=5, "blue")\<close>.
\<close>

theorem stale_update_no_effect:
  "TS r < TS (state s) \<Longrightarrow>
     processStateChange s r = s \<and> state (processStateChange s r) = state s \<and>
     queue (processStateChange s r) = queue s \<and>
     updates (processStateChange s r) = updates s"
  by (simp add: processStateChange_reject Before_def)

theorem stale_update_no_effect_witness:
  "TS stale_blue < TS (state held_green) \<and>
   state (processStateChange held_green stale_blue) = \<lparr>TS = 10, Value = ''green''\<rparr> \<and>
   queue (processStateChange held_green stale_blue) = [] \<and>
   updates (processStateChange held_green stale_blue) = 0"
proof -
  have h: "TS stale_blue < TS (state held_green)"
    by (simp add: stale_blue_def held_green_def)
  from stale_update_no_effect [OF h] h show ?thesis
    by (simp add: held_green_def)
qed

text \<open>
  Claim C6. A record is accepted against itself: a server that holds \<open>r\<close> and processes
  \<open>r\<close> again does not take the early return, since the timestamp of \<open>r\<close> is not before
  itself. The accepting branch runs, so a notification is sent and a new entry for \<open>r\<close> is
  queued, and the server is not the one it was. The record it holds afterwards is still
  \<open>r\<close>, with the same timestamp and value: replacing \<open>r\<close> by itself changes nothing in
  the held record.
\<close>

theorem last_writer_wins_idempotent:
  "\<not> Before (TS r) (TS r) \<and>
   processStateChange (s\<lparr>state := r\<rparr>) r =
     s\<lparr>state := r, updates := Suc (updates s),
       queue := QueueBroadcast (queue s) (StateChange r)\<rparr> \<and>
   processStateChange (s\<lparr>state := r\<rparr>) r \<noteq> s\<lparr>state := r\<rparr> \<and>
   updates (processStateChange (s\<lparr>state := r\<rparr>) r) = Suc (updates s) \<and>
   (IsStateChange (StateChange r), 0) \<in> set (queue (processStateChange (s\<lparr>state := r\<rparr>) r)) \<and>
   state (processStateChange (s\<lparr>state := r\<rparr>) r) = r \<and>
   TS (state (processStateChange (s\<lparr>state := r\<rparr>) r)) = TS r \<and>
   Value (state (processStateChange (s\<lparr>state := r\<rparr>) r)) = Value r"
proof -
  let ?h = "s\<lparr>state := r\<rparr>"
  have nb: "\<not> Before (TS r) (TS (state ?h))"
    by (simp add: Before_def)
  have acc: "processStateChange ?h r =
      s\<lparr>state := r, updates := Suc (updates s),
        queue := QueueBroadcast (queue s) (StateChange r)\<rparr>"
    using processStateChange_accept [OF nb] by simp
  have ne: "processStateChange ?h r \<noteq> ?h"
    using nb by (rule processStateChange_accept_visible)
  have q: "(IsStateChange (StateChange r), 0) \<in> set (queue (processStateChange ?h r))"
    by (simp add: acc QueueBroadcast_def)
  have u: "updates (processStateChange ?h r) = Suc (updates s)"
    by (simp add: acc)
  have st: "state (processStateChange ?h r) = r"
    by (simp add: acc)
  from nb have "\<not> Before (TS r) (TS r)" by simp
  with acc ne q u st show ?thesis by simp
qed

theorem last_writer_wins_idempotent_witness:
  "processStateChange held_green \<lparr>TS = 10, Value = ''green''\<rparr> \<noteq> held_green \<and>
   updates (processStateChange held_green \<lparr>TS = 10, Value = ''green''\<rparr>) = 1 \<and>
   queue (processStateChange held_green \<lparr>TS = 10, Value = ''green''\<rparr>) =
     [(IsStateChange (StateChange \<lparr>TS = 10, Value = ''green''\<rparr>), 0)] \<and>
   state (processStateChange held_green \<lparr>TS = 10, Value = ''green''\<rparr>) =
     \<lparr>TS = 10, Value = ''green''\<rparr>"
proof -
  have h: "held_green\<lparr>state := \<lparr>TS = 10, Value = ''green''\<rparr>\<rparr> = held_green"
    by (simp add: held_green_def)
  have q: "QueueBroadcast (queue held_green) (StateChange \<lparr>TS = 10, Value = ''green''\<rparr>) =
      [(IsStateChange (StateChange \<lparr>TS = 10, Value = ''green''\<rparr>), 0)]"
    by (simp add: QueueBroadcast_def held_green_def)
  have u: "updates held_green = 0"
    by (simp add: held_green_def)
  from last_writer_wins_idempotent [of "\<lparr>TS = 10, Value = ''green''\<rparr>" held_green]
  have "processStateChange held_green \<lparr>TS = 10, Value = ''green''\<rparr> =
      held_green\<lparr>state := \<lparr>TS = 10, Value = ''green''\<rparr>, updates := Suc (updates held_green),
        queue := QueueBroadcast (queue held_green)
          (StateChange \<lparr>TS = 10, Value = ''green''\<rparr>)\<rparr>"
    and "processStateChange held_green \<lparr>TS = 10, Value = ''green''\<rparr> \<noteq> held_green"
    unfolding h by blast+
  then show ?thesis by (simp add: q u)
qed

section \<open>Monotonicity of the held record\<close>

lemma TS_processStateChange:
  "TS (state (processStateChange s r)) = max (TS (state s)) (TS r)"
  by (simp add: processStateChange_def Before_def Let_def max_def)

lemma state_processStateChange:
  "state (processStateChange s r) = state s \<or> state (processStateChange s r) = r"
  by (simp add: processStateChange_def Before_def Let_def)

lemma deliver_Cons: "deliver s (r # rs) = deliver (processStateChange s r) rs"
  by (simp add: deliver_def)

text \<open>A mutation is a delivery of the record \<^verbatim>\<open>nextState\<close> made.\<close>

lemma mutate_deliver: "mutate s now i = deliver s [nextState now i]"
  by (simp add: mutate_def deliver_def)

lemma deliver_mem: "state (deliver s rs) \<in> set (state s # rs)"
proof (induction rs arbitrary: s)
  case Nil
  show ?case by (simp add: deliver_def)
next
  case (Cons r rs)
  from Cons.IH [of "processStateChange s r"] state_processStateChange [of s r]
  show ?case by (auto simp: deliver_Cons)
qed

lemma deliver_TS: "TS (state (deliver s rs)) = Max (TS ` set (state s # rs))"
proof (induction rs arbitrary: s)
  case Nil
  show ?case by (simp add: deliver_def)
next
  case (Cons r rs)
  have "TS (state (deliver s (r # rs))) = Max (TS ` set (state (processStateChange s r) # rs))"
    using Cons.IH [of "processStateChange s r"] by (simp add: deliver_Cons)
  also have "\<dots> = Max (insert (max (TS (state s)) (TS r)) (TS ` set rs))"
    by (simp add: TS_processStateChange)
  also have "\<dots> = Max (TS ` set (state s # r # rs))"
    by (cases "rs = []") (simp_all add: max.assoc)
  finally show ?case .
qed

text \<open>The timestamp that is held in the end does not depend on the order of delivery. The
  value does when two records carry the maximal timestamp: the later delivery wins.\<close>

lemma deliver_order:
  "set rs = set rs' \<Longrightarrow> TS (state (deliver s rs)) = TS (state (deliver s rs'))"
  by (simp add: deliver_TS)

lemma deliver_tie_order:
  "Value (state (deliver held_green [tie_red])) = ''red'' \<and>
   Value (state (deliver (node 10 ''red'') [state held_green])) = ''green''"
  by (simp add: deliver_def processStateChange_def Before_def Let_def held_green_def
      tie_red_def node_def)

text \<open>
  Claim C2. After any finite sequence of records has been delivered to a server, in
  whatever order, the held record is one of the records delivered or the initial one, and
  its timestamp is the maximum of all their timestamps: no record among them is after it.
\<close>

theorem deliver_holds_maximum:
  "state (deliver s rs) \<in> set (state s # rs) \<and>
   TS (state (deliver s rs)) = Max (TS ` set (state s # rs)) \<and>
   (\<forall>r \<in> set (state s # rs). \<not> After (TS r) (TS (state (deliver s rs))))"
proof -
  have "\<forall>r \<in> set (state s # rs). TS r \<le> Max (TS ` set (state s # rs))"
    by (intro ballI Max_ge) auto
  then show ?thesis
    using deliver_mem [of s rs] deliver_TS [of s rs] by (auto simp: After_def)
qed

theorem deliver_holds_maximum_witness:
  "state (deliver held_green [newer_red, stale_blue, tie_red]) = newer_red \<and>
   TS (state (deliver held_green [newer_red, stale_blue, tie_red])) = 12 \<and>
   \<not> After (TS tie_red) (TS (state (deliver held_green [newer_red, stale_blue, tie_red])))"
proof -
  have d: "state (deliver held_green [newer_red, stale_blue, tie_red]) = newer_red"
    by (simp add: deliver_def processStateChange_def Before_def Let_def held_green_def
        newer_red_def stale_blue_def tie_red_def)
  from deliver_holds_maximum [of held_green "[newer_red, stale_blue, tie_red]"] d
  show ?thesis by (simp add: newer_red_def)
qed

section \<open>The wire format: decoding what was encoded\<close>

lemma strip_prefix_append: "strip_prefix p (p @ s) = Some s"
  by (simp add: strip_prefix_def)

lemma digit_val_digit_char: "d < 10 \<Longrightarrow> digit_val (digit_char d) = Some d"
  by (simp add: digit_val_def digit_char_def)

lemma is_digit_digit_char: "d < 10 \<Longrightarrow> is_digit (digit_char d)"
  by (simp add: is_digit_def digit_val_digit_char)

lemma not_digit_symbols:
  "\<not> is_digit (CHR '','')" "\<not> is_digit (CHR ''-'')"
  by (simp_all add: is_digit_def digit_val_def)

lemma show_nat_digits: "c \<in> set (show_nat n) \<Longrightarrow> is_digit c"
proof (induction n rule: show_nat.induct)
  case (1 n)
  show ?case
  proof (cases "n < 10")
    case True
    with "1.prems" have "c = digit_char n"
      by (subst (asm) show_nat.simps) simp
    with True show ?thesis
      by (simp add: is_digit_digit_char)
  next
    case False
    with "1.prems" have "c \<in> set (show_nat (n div 10)) \<or> c = digit_char (n mod 10)"
      by (subst (asm) show_nat.simps) auto
    with False "1.IH" show ?thesis
      by (auto simp: is_digit_digit_char)
  qed
qed

lemma show_nat_not_Nil: "show_nat n \<noteq> []"
  by (subst show_nat.simps) simp

lemma parse_nat_snoc:
  "parse_nat (ds @ [c]) = 10 * parse_nat ds + (case digit_val c of Some d \<Rightarrow> d | None \<Rightarrow> 0)"
  by (simp add: parse_nat_def)

lemma parse_nat_show_nat: "parse_nat (show_nat n) = n"
proof (induction n rule: show_nat.induct)
  case (1 n)
  show ?case
  proof (cases "n < 10")
    case True
    then have "show_nat n = [digit_char n]" by (subst show_nat.simps) simp
    with True show ?thesis
      by (simp add: parse_nat_def digit_val_digit_char)
  next
    case False
    then have "show_nat n = show_nat (n div 10) @ [digit_char (n mod 10)]"
      by (subst show_nat.simps) simp
    with False "1.IH" show ?thesis
      by (simp add: parse_nat_snoc digit_val_digit_char)
  qed
qed

lemma read_nat_show_nat:
  assumes "\<not> is_digit c"
  shows "read_nat (show_nat n @ c # rest) = Some (n, c # rest)"
proof -
  have ds: "\<And>x. x \<in> set (show_nat n) \<Longrightarrow> is_digit x"
    by (rule show_nat_digits)
  have t: "takeWhile is_digit (show_nat n @ c # rest) = show_nat n"
    using assms by (simp add: takeWhile_append2 [OF ds])
  have d: "dropWhile is_digit (show_nat n @ c # rest) = c # rest"
    using assms by (simp add: dropWhile_append2 [OF ds])
  show ?thesis
    by (simp add: read_nat_def t d show_nat_not_Nil parse_nat_show_nat)
qed

lemma hd_show_nat_not_minus: "show_nat n = x # xs \<Longrightarrow> x \<noteq> CHR ''-''"
  using show_nat_digits [of x n] not_digit_symbols(2) by auto

lemma read_int_show_int:
  assumes "\<not> is_digit c"
  shows "read_int (show_int i @ c # rest) = Some (i, c # rest)"
proof (cases "i < 0")
  case True
  then show ?thesis
    by (simp add: read_int_def show_int_def read_nat_show_nat [OF assms])
next
  case False
  obtain x xs where x: "show_nat (nat i) = x # xs"
    using show_nat_not_Nil [of "nat i"] by (cases "show_nat (nat i)") auto
  have "read_nat (x # xs @ c # rest) = Some (nat i, c # rest)"
    using read_nat_show_nat [OF assms, of "nat i" rest] x by simp
  with False x hd_show_nat_not_minus [OF x] show ?thesis
    by (simp add: read_int_def show_int_def)
qed

lemma unescape_escape: "unescape (escape v @ dq # rest) = Some (v, rest)"
proof (induction v)
  case Nil
  show ?case by (cases rest) simp_all
next
  case (Cons c v)
  obtain e r where er: "escape v @ dq # rest = e # r"
    by (cases "escape v @ dq # rest") auto
  show ?case
  proof (cases "c = dq \<or> c = bs")
    case True
    then have "unescape (escape (c # v) @ dq # rest) = unescape (bs # c # (escape v @ dq # rest))"
      by simp
    also have "\<dots> = Some (c # v, rest)"
      using True Cons.IH by (auto simp: dq_def bs_def)
    finally show ?thesis .
  next
    case False
    then have "unescape (escape (c # v) @ dq # rest) = unescape (c # e # r)"
      using er by simp
    also have "\<dots> = Some (c # v, rest)"
      using False Cons.IH er by simp
    finally show ?thesis .
  qed
qed

lemma json_roundtrip: "json_Unmarshal (json_Marshal r) = Inr r"
proof -
  let ?tail = "quote ''Value'' @ '':'' @ dq # escape (Value r) @ dq # ''}''"
  have m: "json_Marshal r =
      (''{'' @ quote ''TS'' @ '':'') @ show_int (TS r) @ CHR '','' # ?tail"
    by (simp add: json_Marshal_def)
  have 1: "strip_prefix (''{'' @ quote ''TS'' @ '':'') (json_Marshal r) =
      Some (show_int (TS r) @ CHR '','' # ?tail)"
    unfolding m by (rule strip_prefix_append)
  have 2: "read_int (show_int (TS r) @ CHR '','' # ?tail) = Some (TS r, CHR '','' # ?tail)"
    by (rule read_int_show_int) (rule not_digit_symbols)
  have "CHR '','' # ?tail = ('','' @ quote ''Value'' @ '':'' @ [dq]) @ escape (Value r) @ dq # ''}''"
    by simp
  then have 3: "strip_prefix ('','' @ quote ''Value'' @ '':'' @ [dq]) (CHR '','' # ?tail) =
      Some (escape (Value r) @ dq # ''}'')"
    by (simp only: strip_prefix_append)
  have 4: "unescape (escape (Value r) @ dq # ''}'') = Some (Value r, ''}'')"
    by (rule unescape_escape)
  have "json_Unmarshal (json_Marshal r) = Inr \<lparr>TS = TS r, Value = Value r\<rparr>"
    unfolding json_Unmarshal_def
    by (simp only: 1 2 3 4 option.case prod.case) simp
  then show ?thesis by simp
qed

lemma json_Marshal_inj: "(json_Marshal r = json_Marshal r') = (r = r')"
proof
  assume "json_Marshal r = json_Marshal r'"
  then have "json_Unmarshal (json_Marshal r) = json_Unmarshal (json_Marshal r')" by simp
  then show "r = r'" by (simp add: json_roundtrip)
qed simp

lemma unmarshal_empty: "json_Unmarshal [] = Inl SyntaxError"
  by (simp add: json_Unmarshal_def strip_prefix_def quote_def)

lemma unmarshal_not_json: "json_Unmarshal ''not json'' = Inl SyntaxError"
  by (simp add: json_Unmarshal_def strip_prefix_def quote_def)

text \<open>The bytes on the wire for the record \<open>(t=10, "red")\<close>.\<close>

lemma marshal_tie_red:
  "json_Marshal tie_red =
     ''{'' @ quote ''TS'' @ '':10,'' @ quote ''Value'' @ '':'' @ quote ''red'' @ ''}''"
  by code_simp

text \<open>
  Claim C9. The payload of a broadcast (\<^verbatim>\<open>StateChange.Message\<close>) and the payload of a
  state exchange (\<^verbatim>\<open>LocalState\<close>) are both the serialization of the record itself: of
  the current record they are the same bytes, and two records have the same bytes only if
  they agree on timestamp and value. The decoder of \<^verbatim>\<open>NotifyMsg\<close> and
  \<^verbatim>\<open>MergeRemoteState\<close> gives back the record that was serialized, so a peer that
  receives such a payload processes exactly that record.
\<close>

theorem wire_roundtrip:
  "Message (StateChange r) = json_Marshal r \<and>
   LocalState s join = json_Marshal (state s) \<and>
   Message (StateChange (state s)) = LocalState s join \<and>
   (json_Marshal r = json_Marshal r') = (TS r = TS r' \<and> Value r = Value r') \<and>
   json_Unmarshal (Message (StateChange r)) = Inr r \<and>
   json_Unmarshal (LocalState s join) = Inr (state s) \<and>
   NotifyMsg s' (Message (StateChange r)) = Returns (processStateChange s' r) \<and>
   MergeRemoteState s' (LocalState s join) join' = Returns (processStateChange s' (state s))"
proof -
  have "(r = r') = (TS r = TS r' \<and> Value r = Value r')" by auto
  then show ?thesis
    by (simp add: Message_def LocalState_def json_roundtrip json_Marshal_inj NotifyMsg_def
        MergeRemoteState_def)
qed

theorem wire_roundtrip_witness:
  "json_Unmarshal (Message (StateChange tie_red)) = Inr \<lparr>TS = 10, Value = ''red''\<rparr> \<and>
   json_Unmarshal (LocalState held_green True) = Inr \<lparr>TS = 10, Value = ''green''\<rparr>"
proof -
  from wire_roundtrip [of tie_red held_green True tie_red held_green True]
  have "json_Unmarshal (Message (StateChange tie_red)) = Inr tie_red"
    and "json_Unmarshal (LocalState held_green True) = Inr (state held_green)"
    by blast+
  then show ?thesis
    by (simp add: tie_red_def held_green_def)
qed

section \<open>The delegate methods\<close>

text \<open>
  Claim C8. \<^verbatim>\<open>MergeRemoteState\<close> does what \<^verbatim>\<open>NotifyMsg\<close> does on every byte
  sequence, whatever the flag \<open>join\<close>: the same decoding, the same fatal exit on an
  undecodable payload, the same call of \<^verbatim>\<open>processStateChange\<close> otherwise.
\<close>

theorem merge_same_as_notify:
  "MergeRemoteState s buf join = NotifyMsg s buf"
  by (simp add: MergeRemoteState_def NotifyMsg_def)

theorem merge_same_as_notify_witness:
  "MergeRemoteState held_green [] True = NotifyMsg held_green [] \<and>
   MergeRemoteState held_green (json_Marshal newer_red) False =
     NotifyMsg held_green (json_Marshal newer_red) \<and>
   NotifyMsg held_green (json_Marshal newer_red) =
     Returns (processStateChange held_green newer_red)"
  using merge_same_as_notify [of held_green "[]" True]
    merge_same_as_notify [of held_green "json_Marshal newer_red" False]
  by (simp add: NotifyMsg_def json_roundtrip)

text \<open>
  Claim C3, as the specification states it, fails: on an undecodable payload
  \<^verbatim>\<open>NotifyMsg\<close> does not discard the payload and return. The empty byte sequence is
  not decodable, and the method ends in \<^verbatim>\<open>s.logger.Fatal(err)\<close>, which exits the
  process.
\<close>

theorem undecodable_not_discarded:
  "json_Unmarshal [] = Inl SyntaxError \<and>
   NotifyMsg held_green [] \<noteq> Returns held_green \<and>
   NotifyMsg held_green [] = Fatal SyntaxError held_green"
  by (simp add: NotifyMsg_def unmarshal_empty)

text \<open>
  Claim C3, amended. When the decoder reports an error, \<^verbatim>\<open>NotifyMsg\<close> never reaches
  \<^verbatim>\<open>processStateChange\<close>: the state record, the queue and the notifications sent are
  as they were, but the method does not return. It calls \<^verbatim>\<open>s.logger.Fatal\<close> with the
  error, which ends the process.
\<close>

theorem undecodable_is_fatal:
  "json_Unmarshal buf = Inl err \<Longrightarrow>
     NotifyMsg s buf = Fatal err s \<and> (\<forall>s'. NotifyMsg s buf \<noteq> Returns s')"
  by (simp add: NotifyMsg_def)

theorem undecodable_is_fatal_witness:
  "json_Unmarshal ''not json'' = Inl SyntaxError \<and>
   NotifyMsg queued_green ''not json'' = Fatal SyntaxError queued_green"
  using undecodable_is_fatal [OF unmarshal_not_json, of queued_green]
  by (simp add: unmarshal_not_json)

section \<open>The broadcast queue\<close>

lemma Invalidates_iff:
  "Invalidates a e = (case e of IsStateChange o' \<Rightarrow> TS (embedded o') < TS (embedded a) | Foreign m \<Rightarrow> False)"
  by (cases e) (simp_all add: After_def)

lemma QueueBroadcast_entries:
  "fst ` set (QueueBroadcast q b) =
     insert (IsStateChange b) {e \<in> fst ` set q. \<not> Invalidates b e}"
  by (auto simp: QueueBroadcast_def image_iff)

lemma drain_subset:
  "set (fst (drain k ov free q)) \<subseteq> fst ` set q \<and> fst ` set (snd (drain k ov free q)) \<subseteq> fst ` set q"
proof (induction q arbitrary: free)
  case Nil
  show ?case by simp
next
  case (Cons x q)
  obtain e n where x: "x = (e, n)" by (cases x)
  let ?free' = "free - (ov + int (length (Broadcast_Message e)))"
  show ?case
  proof (cases "ov + int (length (Broadcast_Message e)) \<le> free")
    case True
    obtain out q' where d: "drain k ov ?free' q = (out, q')" by (cases "drain k ov ?free' q")
    from Cons.IH [of ?free'] d have "set out \<subseteq> fst ` set q" "fst ` set q' \<subseteq> fst ` set q"
      by simp_all
    with True d x show ?thesis by auto
  next
    case False
    obtain out q' where d: "drain k ov free q = (out, q')" by (cases "drain k ov free q")
    from Cons.IH [of free] d have "set out \<subseteq> fst ` set q" "fst ` set q' \<subseteq> fst ` set q"
      by simp_all
    with False d x show ?thesis by auto
  qed
qed

lemma drain_rounds_subset:
  "out \<in> set (drain_rounds q rounds) \<Longrightarrow> set out \<subseteq> fst ` set q"
proof (induction rounds arbitrary: q)
  case Nil
  then show ?case by simp
next
  case (Cons rd rounds)
  obtain k ov lim where rd: "rd = (k, ov, lim)" by (cases rd)
  obtain o1 q' where d: "drain k ov lim q = (o1, q')" by (cases "drain k ov lim q")
  from drain_subset [of k ov lim q] d
  have s1: "set o1 \<subseteq> fst ` set q" and s2: "fst ` set q' \<subseteq> fst ` set q" by simp_all
  from Cons.prems rd d have "out = o1 \<or> out \<in> set (drain_rounds q' rounds)" by simp
  then show ?case
  proof
    assume "out = o1"
    with s1 show ?thesis by simp
  next
    assume "out \<in> set (drain_rounds q' rounds)"
    then have "set out \<subseteq> fst ` set q'" by (rule Cons.IH)
    with s2 show ?thesis by blast
  qed
qed

lemma GetBroadcasts_rounds_eq:
  "GetBroadcasts_rounds q rounds = map (map Broadcast_Message) (drain_rounds q rounds)"
proof (induction rounds arbitrary: q)
  case Nil
  show ?case by simp
next
  case (Cons rd rounds)
  obtain k ov lim where rd: "rd = (k, ov, lim)" by (cases rd)
  obtain o1 q' where d: "drain k ov lim q = (o1, q')" by (cases "drain k ov lim q")
  show ?case by (simp add: rd d queue_GetBroadcasts_def Cons.IH)
qed

lemma survivor_message:
  assumes inv: "Invalidates b a" and e: "\<not> Invalidates b e" and sc: "is_StateChange e"
  shows "Broadcast_Message e \<noteq> Broadcast_Message a"
proof -
  from inv obtain a' where a: "a = IsStateChange a'" by (cases a) auto
  from sc obtain e' where e': "e = IsStateChange e'" by (cases e) auto
  from inv a have "TS (embedded a') < TS (embedded b)" by (simp add: After_def)
  moreover from e e' have "TS (embedded b) \<le> TS (embedded e')" by (simp add: After_def)
  ultimately have "embedded e' \<noteq> embedded a'" by auto
  then show ?thesis by (simp add: a e' Message_def json_Marshal_inj)
qed

text \<open>
  Claim C7. Once an entry \<open>b\<close> has been queued that invalidates a queued entry \<open>a\<close>,
  \<open>a\<close> is no longer in the queue, and no later round of draining hands it out, whatever
  the budgets and limits of the rounds. When the queue holds broadcasts of this program
  only, the payload of \<open>a\<close> is in none of the byte arrays \<open>GetBroadcasts\<close> returns.
\<close>

theorem queue_invalidation:
  "Invalidates b a \<Longrightarrow>
     a \<notin> fst ` set (QueueBroadcast q b) \<and>
     (\<forall>out \<in> set (drain_rounds (QueueBroadcast q b) rounds). a \<notin> set out) \<and>
     ((\<forall>e \<in> fst ` set q. is_StateChange e) \<longrightarrow>
      (\<forall>msgs \<in> set (GetBroadcasts_rounds (QueueBroadcast q b) rounds).
         Broadcast_Message a \<notin> set msgs))"
proof -
  assume inv: "Invalidates b a"
  have nb: "\<not> Invalidates b (IsStateChange b)" by (simp add: After_def)
  with inv have ab: "a \<noteq> IsStateChange b" by auto
  with inv have 1: "a \<notin> fst ` set (QueueBroadcast q b)"
    by (simp add: QueueBroadcast_entries)
  have 2: "\<forall>out \<in> set (drain_rounds (QueueBroadcast q b) rounds). a \<notin> set out"
    using drain_rounds_subset [of _ "QueueBroadcast q b" rounds] 1 by blast
  have 3: "\<forall>msgs \<in> set (GetBroadcasts_rounds (QueueBroadcast q b) rounds).
             Broadcast_Message a \<notin> set msgs"
    if only: "\<forall>e \<in> fst ` set q. is_StateChange e"
  proof
    fix msgs
    assume "msgs \<in> set (GetBroadcasts_rounds (QueueBroadcast q b) rounds)"
    then obtain out where out: "out \<in> set (drain_rounds (QueueBroadcast q b) rounds)"
      and msgs: "msgs = map Broadcast_Message out"
      by (auto simp: GetBroadcasts_rounds_eq)
    have ne: "Broadcast_Message e \<noteq> Broadcast_Message a" if "e \<in> set out" for e
    proof -
      from that drain_rounds_subset [OF out] have "e \<in> fst ` set (QueueBroadcast q b)" by blast
      then have "e = IsStateChange b \<or> (e \<in> fst ` set q \<and> \<not> Invalidates b e)"
        by (simp add: QueueBroadcast_entries)
      with only nb have "\<not> Invalidates b e \<and> is_StateChange e" by auto
      with inv show ?thesis by (simp add: survivor_message)
    qed
    show "Broadcast_Message a \<notin> set msgs"
    proof
      assume "Broadcast_Message a \<in> set msgs"
      with msgs obtain e where "e \<in> set out" "Broadcast_Message e = Broadcast_Message a"
        by auto
      with ne show False by blast
    qed
  qed
  from 1 2 3 show ?thesis by blast
qed

theorem queue_invalidation_witness:
  "Invalidates new_change old_entry \<and>
   QueueBroadcast [(old_entry, 0)] new_change = [(IsStateChange new_change, 0)] \<and>
   old_entry \<notin> fst ` set (QueueBroadcast [(old_entry, 0)] new_change) \<and>
   old_entry \<notin> set (hd (drain_rounds (QueueBroadcast [(old_entry, 0)] new_change) [(3, 2, 1400)])) \<and>
   Broadcast_Message old_entry \<notin>
     set (hd (GetBroadcasts_rounds (QueueBroadcast [(old_entry, 0)] new_change) [(3, 2, 1400)]))"
proof -
  have h: "Invalidates new_change old_entry"
    by (simp add: new_change_def old_entry_def After_def)
  have q: "QueueBroadcast [(old_entry, 0)] new_change = [(IsStateChange new_change, 0)]"
    by (simp add: QueueBroadcast_def h)
  have o: "\<forall>e \<in> fst ` set [(old_entry, 0::nat)]. is_StateChange e"
    by (simp add: old_entry_def)
  have d: "drain_rounds [(IsStateChange new_change, 0)] [(3, 2, 1400)] \<noteq> []"
    by (simp split: prod.splits)
  have g: "GetBroadcasts_rounds [(IsStateChange new_change, 0)] [(3, 2, 1400)] \<noteq> []"
    by (simp split: prod.splits)
  from queue_invalidation [OF h, of "[(old_entry, 0)]" "[(3, 2, 1400)]"] o h q d g
  show ?thesis by (simp add: hd_in_set del: drain_rounds.simps GetBroadcasts_rounds.simps)
qed

text \<open>The same on a running server, where later records arrive between the drains: the
  held timestamp only grows, so an entry below it that has left the queue never comes
  back.\<close>

lemma processStateChange_queue_entries:
  "fst ` set (queue (processStateChange s r)) \<subseteq>
     insert (IsStateChange (StateChange (state (processStateChange s r)))) (fst ` set (queue s))"
  by (auto simp: processStateChange_def Let_def QueueBroadcast_def)

lemma processStateChange_only_StateChange:
  "\<forall>e \<in> fst ` set (queue s). is_StateChange e \<Longrightarrow>
   \<forall>e \<in> fst ` set (queue (processStateChange s r)). is_StateChange e"
proof
  fix e
  assume only: "\<forall>e \<in> fst ` set (queue s). is_StateChange e"
    and "e \<in> fst ` set (queue (processStateChange s r))"
  with processStateChange_queue_entries [of s r]
  have "e = IsStateChange (StateChange (state (processStateChange s r))) \<or>
        e \<in> fst ` set (queue s)"
    by blast
  with only show "is_StateChange e" by auto
qed

lemma run_never_hands_out_superseded:
  assumes "TS (embedded a) < TS (state s)"
    and "IsStateChange a \<notin> fst ` set (queue s)"
    and "out \<in> set (run s evs)"
  shows "IsStateChange a \<notin> set out"
  using assms
proof (induction s evs rule: run.induct)
  case (1 s)
  then show ?case by simp
next
  case (2 s r evs)
  let ?s' = "processStateChange s r"
  have t: "TS (embedded a) < TS (state ?s')"
    using "2.prems"(1) by (simp add: TS_processStateChange)
  then have "IsStateChange a \<noteq> IsStateChange (StateChange (state ?s'))"
    by auto
  with "2.prems"(2) processStateChange_queue_entries [of s r]
  have q: "IsStateChange a \<notin> fst ` set (queue ?s')" by blast
  from "2.prems"(3) have "out \<in> set (run ?s' evs)" by simp
  with t q show ?case by (rule "2.IH")
next
  case (3 s k ov lim evs)
  obtain o1 q' where d: "drain k ov lim (queue s) = (o1, q')"
    by (cases "drain k ov lim (queue s)")
  from drain_subset [of k ov lim "queue s"] d
  have s1: "set o1 \<subseteq> fst ` set (queue s)" and s2: "fst ` set q' \<subseteq> fst ` set (queue s)"
    by simp_all
  from "3.prems"(3) d have "out = o1 \<or> out \<in> set (run (s\<lparr>queue := q'\<rparr>) evs)" by simp
  then show ?case
  proof
    assume "out = o1"
    with s1 "3.prems"(2) show ?thesis by blast
  next
    assume o: "out \<in> set (run (s\<lparr>queue := q'\<rparr>) evs)"
    have t: "TS (embedded a) < TS (state (s\<lparr>queue := q'\<rparr>))"
      using "3.prems"(1) by simp
    have q: "IsStateChange a \<notin> fst ` set (queue (s\<lparr>queue := q'\<rparr>))"
      using s2 "3.prems"(2) by auto
    from d [symmetric] t q o show ?thesis by (rule "3.IH" [OF _ refl])
  qed
qed

text \<open>Once a server has accepted a record, no entry that record invalidates is ever
  handed out again, whatever arrives later.\<close>

lemma superseded_never_broadcast:
  assumes acc: "\<not> Before (TS r) (TS (state s))"
    and inv: "Invalidates (StateChange r) (IsStateChange a)"
    and out: "out \<in> set (run (processStateChange s r) evs)"
  shows "IsStateChange a \<notin> set out"
proof -
  let ?s' = "processStateChange s r"
  from inv have t: "TS (embedded a) < TS (state ?s')"
    by (simp add: processStateChange_accept [OF acc] After_def)
  have "queue ?s' = QueueBroadcast (queue s) (StateChange r)"
    by (simp add: processStateChange_accept [OF acc])
  with inv have q: "IsStateChange a \<notin> fst ` set (queue ?s')"
    by (auto simp: QueueBroadcast_entries After_def)
  from t q out show ?thesis by (rule run_never_hands_out_superseded)
qed

text \<open>
  Claim C10. A record with exactly the held timestamp is accepted: a notification is sent
  and a new entry is queued. \<^verbatim>\<open>Invalidates\<close> holds only against a
  \<^verbatim>\<open>StateChange\<close> with a strictly earlier timestamp, so an entry already queued with
  that same timestamp is not invalidated and stays in the queue next to the new one.
\<close>

theorem equal_timestamp_requeues:
  "TS r = TS (state s) \<Longrightarrow>
     state (processStateChange s r) = r \<and>
     updates (processStateChange s r) = Suc (updates s) \<and>
     (IsStateChange (StateChange r), 0) \<in> set (queue (processStateChange s r)) \<and>
     (\<forall>e. Invalidates (StateChange r) e =
        (case e of IsStateChange o' \<Rightarrow> TS (embedded o') < TS r | Foreign m \<Rightarrow> False)) \<and>
     (\<forall>p n. (IsStateChange (StateChange p), n) \<in> set (queue s) \<and> TS p = TS r \<longrightarrow>
        \<not> Invalidates (StateChange r) (IsStateChange (StateChange p)) \<and>
        (IsStateChange (StateChange p), n) \<in> set (queue (processStateChange s r)))"
proof -
  assume eq: "TS r = TS (state s)"
  then have nb: "\<not> Before (TS r) (TS (state s))" by (simp add: Before_def)
  have q: "queue (processStateChange s r) = QueueBroadcast (queue s) (StateChange r)"
    by (simp add: processStateChange_accept [OF nb])
  have 1: "state (processStateChange s r) = r"
    by (simp add: processStateChange_accept [OF nb])
  have 2: "updates (processStateChange s r) = Suc (updates s)"
    by (simp add: processStateChange_accept [OF nb])
  have 3: "(IsStateChange (StateChange r), 0) \<in> set (queue (processStateChange s r))"
    by (simp add: q QueueBroadcast_def)
  have 4: "\<forall>e. Invalidates (StateChange r) e =
        (case e of IsStateChange o' \<Rightarrow> TS (embedded o') < TS r | Foreign m \<Rightarrow> False)"
    by (auto simp: Invalidates_iff split: Broadcast.splits)
  have 5: "\<not> Invalidates (StateChange r) (IsStateChange (StateChange p)) \<and>
        (IsStateChange (StateChange p), n) \<in> set (queue (processStateChange s r))"
    if "(IsStateChange (StateChange p), n) \<in> set (queue s) \<and> TS p = TS r" for p n
    using that by (simp add: q QueueBroadcast_def After_def)
  from 1 2 3 4 5 show ?thesis by blast
qed

theorem equal_timestamp_requeues_witness:
  "TS tie_red = TS (state queued_green) \<and>
   updates (processStateChange queued_green tie_red) = 2 \<and>
   queue (processStateChange queued_green tie_red) =
     [(IsStateChange (StateChange \<lparr>TS = 10, Value = ''green''\<rparr>), 1),
      (IsStateChange (StateChange \<lparr>TS = 10, Value = ''red''\<rparr>), 0)]"
proof -
  have h: "TS tie_red = TS (state queued_green)"
    by (simp add: tie_red_def queued_green_def)
  have q: "queue (processStateChange queued_green tie_red) =
     [(IsStateChange (StateChange \<lparr>TS = 10, Value = ''green''\<rparr>), 1),
      (IsStateChange (StateChange \<lparr>TS = 10, Value = ''red''\<rparr>), 0)]"
    by (simp add: processStateChange_def QueueBroadcast_def Before_def After_def Let_def
        tie_red_def queued_green_def)
  from equal_timestamp_requeues [OF h] h q show ?thesis
    by (simp add: queued_green_def)
qed

section \<open>The float32 model\<close>

text \<open>The exponent brackets its argument between two powers of two, so the significand
  that \<open>round32\<close> rounds has 24 bits.\<close>

lemma bits_bounds: "0 < n \<Longrightarrow> 2 ^ (bits n - 1) \<le> n \<and> n < 2 ^ bits n"
proof (induction n rule: bits.induct)
  case (1 n)
  show ?case
  proof (cases "n div 2 = 0")
    case True
    with "1.prems" have "n = 1" by (simp add: div_eq_0_iff) 
    then show ?thesis by (simp add: bits.simps [of "Suc 0"] bits.simps [of 0])
  next
    case False
    then have pos: "0 < n div 2" by simp
    with "1.prems" "1.IH" have ih: "2 ^ (bits (n div 2) - 1) \<le> n div 2" "n div 2 < 2 ^ bits (n div 2)"
      by simp_all
    have b: "bits n = Suc (bits (n div 2))"
      using "1.prems" by (subst bits.simps) simp
    have bp: "0 < bits (n div 2)"
      using pos by (subst bits.simps) simp
    then have e: "2 ^ bits (n div 2) = 2 * 2 ^ (bits (n div 2) - 1)"
      by (cases "bits (n div 2)") simp_all
    from ih(1) have "2 * 2 ^ (bits (n div 2) - 1) \<le> n" by linarith
    moreover from ih(2) have "n < 2 * 2 ^ bits (n div 2)" by linarith
    ultimately show ?thesis by (simp add: b e)
  qed
qed

lemma bits_pos: "0 < n \<Longrightarrow> 0 < bits n"
  by (subst bits.simps) simp

lemma pow2_nat: "pow2 (int k) = 2 ^ k"
  by (simp add: pow2_def)

lemma pow2_neg: "pow2 (- int k) = 1 / 2 ^ k"
  by (auto simp: pow2_def)

lemma rat_pow_le: "2 ^ k \<le> n \<Longrightarrow> (2::rat) ^ k \<le> rat_of_nat n"
  by simp

lemma rat_less_pow: "n < 2 ^ k \<Longrightarrow> rat_of_nat n + 1 \<le> 2 ^ k"
proof -
  assume "n < 2 ^ k"
  then have "Suc n \<le> 2 ^ k" by simp
  then have "rat_of_nat (Suc n) \<le> 2 ^ k"
    by (simp only: of_nat_le_numeral_power_cancel_iff)
  then show ?thesis by (simp add: add.commute)
qed

lemma exponent_bounds:
  assumes "0 < q"
  shows "pow2 (exponent q) \<le> q \<and> q < pow2 (exponent q + 1)"
proof (cases "1 \<le> q")
  case True
  define n where "n = nat \<lfloor>q\<rfloor>"
  from True have n: "0 < n" by (simp add: n_def)
  from True have f: "rat_of_nat n \<le> q" "q < rat_of_nat n + 1"
    by (simp_all add: n_def) linarith+
  from bits_bounds [OF n] have lo: "2 ^ (bits n - 1) \<le> n" and hi: "n < 2 ^ bits n" by simp_all
  from bits_pos [OF n] have e: "exponent q = int (bits n - 1)" "exponent q + 1 = int (bits n)"
    using True by (simp_all add: exponent_def n_def)
  from rat_pow_le [OF lo] f(1) have "2 ^ (bits n - 1) \<le> q" by (rule order_trans)
  then have 1: "pow2 (exponent q) \<le> q" by (simp only: e(1) pow2_nat)
  from f(2) rat_less_pow [OF hi] have "q < 2 ^ bits n" by (rule less_le_trans)
  then have 2: "q < pow2 (exponent q + 1)" by (simp only: e(2) pow2_nat)
  from 1 2 show ?thesis ..
next
  case False
  define m where "m = nat (\<lceil>1 / q\<rceil> - 1)"
  from False assms have big: "1 < 1 / q" by simp
  then have c: "2 \<le> \<lceil>1 / q\<rceil>" by linarith
  then have m: "0 < m" by (simp add: m_def)
  have f: "rat_of_nat m < 1 / q" "1 / q \<le> rat_of_nat m + 1"
    using c by (simp_all add: m_def) linarith+
  from bits_bounds [OF m] have lo: "2 ^ (bits m - 1) \<le> m" and hi: "m < 2 ^ bits m" by simp_all
  from bits_pos [OF m] have e: "exponent q = - int (bits m)" "exponent q + 1 = - int (bits m - 1)"
    using False by (simp_all add: exponent_def m_def)
  from f(2) rat_less_pow [OF hi] have "1 / q \<le> 2 ^ bits m" by (rule order_trans)
  with assms have "1 / 2 ^ bits m \<le> q"
    by (simp add: field_simps)
  then have 1: "pow2 (exponent q) \<le> q" by (simp only: e(1) pow2_neg)
  from rat_pow_le [OF lo] f(1) have "2 ^ (bits m - 1) < 1 / q" by (rule le_less_trans)
  with assms have "q < 1 / 2 ^ (bits m - 1)"
    by (simp add: field_simps)
  then have 2: "q < pow2 (exponent q + 1)" by (simp only: e(2) pow2_neg)
  from 1 2 show ?thesis ..
qed


lemma pow2_powi: "pow2 e = 2 powi e"
  by (simp add: pow2_def power_int_def field_simps)

lemma pow2_pos: "0 < pow2 e"
  by (simp add: pow2_powi)

lemma pow2_diff: "pow2 a / pow2 b = pow2 (a - b)"
  by (simp add: pow2_powi power_int_diff)

lemma round_half_even_near: "\<bar>of_int (round_half_even x) - x\<bar> \<le> 1 / 2"
proof -
  have "of_int \<lfloor>x\<rfloor> \<le> x" "x < of_int \<lfloor>x\<rfloor> + 1" by linarith+
  then show ?thesis
    by (auto simp: round_half_even_def Let_def)
qed

lemma round_half_even_ge: "of_int k \<le> x \<Longrightarrow> k \<le> round_half_even x"
proof -
  assume "of_int k \<le> x"
  then have "k \<le> \<lfloor>x\<rfloor>" by (simp add: le_floor_iff)
  then show ?thesis by (auto simp: round_half_even_def Let_def)
qed

lemma round_half_even_le: "x < of_int k \<Longrightarrow> round_half_even x \<le> k"
proof -
  assume "x < of_int k"
  then have "\<lfloor>x\<rfloor> < k" by (simp add: floor_less_iff)
  then show ?thesis by (auto simp: round_half_even_def Let_def)
qed

text \<open>\<open>round32\<close> gives a number with a significand of 24 bits that is within half a unit
  in the last place of its argument.\<close>

lemma round32_float:
  assumes "0 < q"
  shows "\<exists>m. round32 q = of_int m * pow2 (exponent q - 23) \<and> 2 ^ 23 \<le> m \<and> m \<le> 2 ^ 24 \<and>
          \<bar>round32 q - q\<bar> \<le> pow2 (exponent q - 23) / 2"
proof -
  define u where "u = pow2 (exponent q - 23)"
  define m where "m = round_half_even (q / u)"
  have u: "0 < u" by (simp add: u_def pow2_pos)
  have r: "round32 q = of_int m * u"
    using assms by (simp add: round32_def m_def u_def Let_def)
  from exponent_bounds [OF assms] have "pow2 (exponent q) / u \<le> q / u" "q / u < pow2 (exponent q + 1) / u"
    using u by (simp_all add: divide_right_mono divide_strict_right_mono)
  then have b: "2 ^ 23 \<le> q / u" "q / u < 2 ^ 24"
    by (simp_all add: u_def pow2_diff) (simp_all add: pow2_def)
  from b(1) have "of_int (2 ^ 23) \<le> q / u" by simp
  then have lo: "2 ^ 23 \<le> m" unfolding m_def by (rule round_half_even_ge)
  from b(2) have "q / u < of_int (2 ^ 24)" by simp
  then have hi: "m \<le> 2 ^ 24" unfolding m_def by (rule round_half_even_le)
  have "of_int m * u - q = (of_int m - q / u) * u"
    using u by (simp add: left_diff_distrib)
  then have "\<bar>round32 q - q\<bar> = \<bar>of_int m - q / u\<bar> * \<bar>u\<bar>"
    by (simp only: r abs_mult)
  also have "\<dots> = \<bar>of_int m - q / u\<bar> * u"
    using u by simp
  also have "\<dots> \<le> (1 / 2) * u"
    using u round_half_even_near [of "q / u"] by (simp add: m_def mult_right_mono del: of_int_diff)
  finally have "\<bar>round32 q - q\<bar> \<le> u / 2" by simp
  with r lo hi show ?thesis unfolding u_def by blast
qed

section \<open>The convergence score\<close>

lemma tally_example:
  "foldl tally (zero_state, Map.empty) example_nodes =
     (\<lparr>TS = 5, Value = ''red''\<rparr>, [''red'' \<mapsto> 2, ''blue'' \<mapsto> 1])"
  by (simp add: example_nodes_def node_def tally_def zero_state_def After_def count_of_def Let_def fun_eq_iff)

text \<open>
  Claim C4, as the specification states it, fails: for the three nodes
  \<open>(t=5, "red")\<close>, \<open>(t=5, "red")\<close>, \<open>(t=3, "blue")\<close> the score that is printed is
  not 66.
\<close>

theorem score_example_not_66:
  "fmt_0f (score (monitor example_nodes)) \<noteq> ''66''"
  by code_simp

text \<open>
  Claim C4, amended. For these three nodes the expected value is \<open>"red"\<close>, the histogram
  is \<open>{red: 2, blue: 1}\<close>, and the score, \<open>100 * (2 / 3)\<close> computed in
  \<^verbatim>\<open>float32\<close>, is about 66.67, which \<^verbatim>\<open>%.0f\<close> rounds to the nearest integer: the
  report says 67.
\<close>

theorem score_example_reports_67:
  "expect (monitor example_nodes) = ''red'' \<and>
   histogram (monitor example_nodes) = [''red'' \<mapsto> 2, ''blue'' \<mapsto> 1] \<and>
   score (monitor example_nodes) = Finite (4369067 / 65536) \<and>
   fmt_0f (score (monitor example_nodes)) = ''67''"
proof -
  have e: "expect (monitor example_nodes) = ''red''"
    by code_simp
  have h: "histogram (monitor example_nodes) = [''red'' \<mapsto> 2, ''blue'' \<mapsto> 1]"
    unfolding monitor_def tally_example by simp
  have s: "score (monitor example_nodes) = Finite (4369067 / 65536)"
    by code_simp
  have f: "fmt_0f (score (monitor example_nodes)) = ''67''"
    by code_simp
  from e h s f show ?thesis by simp
qed

end
